theory Spec2Isabelle
  imports Main
begin

section \<open>C strings and the library functions main.c calls\<close>

text \<open>
  A \<open>char*\<close> is modelled by the bytes of the object it points into, from the pointer to
  the end of the object. Every read is a pattern match on that list, or \<open>peek\<close>: a read
  beyond the last byte of the object has no C behaviour and is the result \<open>None\<close>, which
  every caller passes on.
\<close>

definition NUL :: char where
  "NUL = CHR 0x00"

text \<open>\<open>MAX_CODE_SIZE\<close> of main.c.\<close>

definition MAX_CODE_SIZE :: nat where
  "MAX_CODE_SIZE = 1000"

text \<open>The string literal \<open>" \t\n"\<close> of \<open>interpret\<close> (without its terminator).\<close>

definition delimiter :: string where
  "delimiter = [CHR '' '', CHR 0x09, CHR 0x0A]"

text \<open>\<open>m[i]\<close>\<close>

definition peek :: "char list \<Rightarrow> nat \<Rightarrow> char option" where
  "peek m i = (if i < length m then Some (m ! i) else None)"

text \<open>The string a pointer denotes: the bytes before the first NUL (what \<open>%s\<close> prints).\<close>

fun cstring :: "char list \<Rightarrow> string option" where
  "cstring [] = None"
| "cstring (c # cs) = (if c = NUL then Some [] else map_option ((#) c) (cstring cs))"

text \<open>
  \<open>strncpy(dst, src, n)\<close>: copies up to \<open>n\<close> bytes, stops reading at the first NUL of
  \<open>src\<close> and fills the rest of the \<open>n\<close> bytes with NUL. The result is the new content
  of \<open>dst[0..n-1]\<close>.
\<close>

fun strncpy :: "nat \<Rightarrow> char list \<Rightarrow> char list option" where
  "strncpy 0 src = Some []"
| "strncpy (Suc n) [] = None"
| "strncpy (Suc n) (c # cs) =
     (if c = NUL then Some (replicate (Suc n) NUL)
      else map_option ((#) c) (strncpy n cs))"

text \<open>
  \<open>strcmp(a, b)\<close>: compares byte by byte up to the first difference or the common
  terminator; the caller tests the result against 0 only.
\<close>

fun strcmp :: "char list \<Rightarrow> char list \<Rightarrow> int option" where
  "strcmp [] bs = None"
| "strcmp (a # as) [] = None"
| "strcmp (a # as) (b # bs) =
     (if a \<noteq> b then Some (int (of_char a) - int (of_char b))
      else if a = NUL then Some 0
      else strcmp as bs)"

text \<open>\<open>strspn(s, accept)\<close> and \<open>strcspn(s, reject)\<close>: both stop at the terminator of \<open>s\<close>.\<close>

fun strspn :: "char list \<Rightarrow> string \<Rightarrow> nat option" where
  "strspn [] d = None"
| "strspn (c # cs) d =
     (if c \<noteq> NUL \<and> c \<in> set d then map_option Suc (strspn cs d) else Some 0)"

fun strcspn :: "char list \<Rightarrow> string \<Rightarrow> nat option" where
  "strcspn [] d = None"
| "strcspn (c # cs) d =
     (if c \<noteq> NUL \<and> c \<notin> set d then map_option Suc (strcspn cs d) else Some 0)"

text \<open>
  \<open>strtok\<close> works on a buffer it overwrites and keeps a pointer between calls. The state
  is the buffer (here always \<open>code_copy\<close>) and the saved pointer, an index into the buffer
  (\<open>None\<close> is the null pointer). A token is returned as the index of its first byte.

  The first argument is the string to search, or \<open>None\<close> (NULL) to continue from the saved
  pointer. Leading separators are skipped; if the terminator follows there is no token.
  Otherwise the token runs to the next separator, which is overwritten by NUL, and the
  search resumes behind it; a token that runs to the terminator leaves the saved pointer
  on the terminator, so that later calls return NULL.
\<close>

record tok_state =
  buf :: "char list"
  save :: "nat option"

definition strtok :: "nat option \<Rightarrow> string \<Rightarrow> tok_state \<Rightarrow> (nat option \<times> tok_state) option" where
  "strtok s1 delim st =
     (case (case s1 of Some p \<Rightarrow> Some p | None \<Rightarrow> save st) of
        None \<Rightarrow> None
      | Some p \<Rightarrow>
         (case strspn (drop p (buf st)) delim of
            None \<Rightarrow> None
          | Some i \<Rightarrow>
             let b = p + i in
             (case peek (buf st) b of
                None \<Rightarrow> None
              | Some c \<Rightarrow>
                 if c = NUL then Some (None, st\<lparr>save := Some b\<rparr>)
                 else
                   (case strcspn (drop b (buf st)) delim of
                      None \<Rightarrow> None
                    | Some j \<Rightarrow>
                       let e = b + j in
                       (case peek (buf st) e of
                          None \<Rightarrow> None
                        | Some c' \<Rightarrow>
                           if c' = NUL then Some (Some b, st\<lparr>save := Some e\<rparr>)
                           else Some (Some b,
                                      \<lparr>buf = (buf st)[e := NUL], save = Some (Suc e)\<rparr>))))))"

section \<open>Standard streams\<close>

record io =
  out :: string
  err :: string

definition io0 :: io where
  "io0 = \<lparr>out = [], err = []\<rparr>"

text \<open>\<open>printf("Printed: %s\n", token)\<close>\<close>

definition printf_printed :: "string \<Rightarrow> io \<Rightarrow> io" where
  "printf_printed s w = w\<lparr>out := out w @ ''Printed: '' @ s @ [CHR 0x0A]\<rparr>"

definition missing_msg :: string where
  "missing_msg = ''Error: Missing argument for print'' @ [CHR 0x0A]"

text \<open>\<open>fprintf(stderr, ...)\<close> with the text already formatted.\<close>

definition fprintf_stderr :: "string \<Rightarrow> io \<Rightarrow> io" where
  "fprintf_stderr s w = w\<lparr>err := err w @ s\<rparr>"

section \<open>The function \<open>interpret\<close>\<close>

text \<open>
  One pass through the body of the \<open>while\<close> loop, entered with \<open>token = t\<close> (not NULL).
  The result is the token for the next test of the loop, the \<open>strtok\<close> state and the
  streams.
\<close>

definition loop_body :: "nat \<Rightarrow> tok_state \<Rightarrow> io \<Rightarrow> (nat option \<times> tok_state \<times> io) option" where
  "loop_body t st w =
     (case strcmp (drop t (buf st)) (''print'' @ [NUL]) of
        None \<Rightarrow> None
      | Some r \<Rightarrow>
         if r = 0 then
           (case strtok None delimiter st of
              None \<Rightarrow> None
            | Some (token, st1) \<Rightarrow>
               (case (case token of
                        Some a \<Rightarrow> map_option (\<lambda>s. printf_printed s w) (cstring (drop a (buf st1)))
                      | None \<Rightarrow> Some (fprintf_stderr missing_msg w)) of
                  None \<Rightarrow> None
                | Some w1 \<Rightarrow>
                   (case strtok None delimiter st1 of
                      None \<Rightarrow> None
                    | Some (token', st2) \<Rightarrow> Some (token', st2, w1))))
         else
           (case strtok None delimiter st of
              None \<Rightarrow> None
            | Some (token', st2) \<Rightarrow> Some (token', st2, w)))"

text \<open>Room left behind the saved pointer: what the loop's termination rests on.\<close>

definition room :: "nat option \<Rightarrow> tok_state \<Rightarrow> nat" where
  "room token st =
     (case token of None \<Rightarrow> 0
      | Some t \<Rightarrow> Suc (length (buf st) - (case save st of None \<Rightarrow> 0 | Some p \<Rightarrow> p)))"

lemma strspn_bound: "strspn m d = Some i \<Longrightarrow> i < length m \<and> (m ! i = NUL \<or> m ! i \<notin> set d)"
proof (induction m arbitrary: i)
  case Nil
  then show ?case by simp
next
  case (Cons c cs)
  then show ?case by (auto split: if_splits)
qed

lemma strcspn_bound: "strcspn m d = Some j \<Longrightarrow> j < length m"
proof (induction m arbitrary: j)
  case Nil
  then show ?case by simp
next
  case (Cons c cs)
  then show ?case by (auto split: if_splits)
qed

lemma strcspn_pos:
  "strcspn m d = Some j \<Longrightarrow> m \<noteq> [] \<Longrightarrow> hd m \<noteq> NUL \<Longrightarrow> hd m \<notin> set d \<Longrightarrow> 0 < j"
  by (cases m) (auto split: if_splits)

lemma strtok_progress:
  assumes "strtok None d st = Some (r, st')"
  shows "\<exists>p q. save st = Some p \<and> save st' = Some q \<and> p \<le> q \<and> q \<le> length (buf st)
           \<and> length (buf st') = length (buf st) \<and> (r \<noteq> None \<longrightarrow> p < q)"
proof -
  from assms obtain p where p: "save st = Some p"
    by (cases "save st") (auto simp: strtok_def)
  from assms p obtain i where i: "strspn (drop p (buf st)) d = Some i"
    by (cases "strspn (drop p (buf st)) d") (auto simp: strtok_def)
  from strspn_bound [OF i] have ib: "p + i < length (buf st)"
    and stop: "buf st ! (p + i) = NUL \<or> buf st ! (p + i) \<notin> set d"
    by auto
  from ib have pk: "peek (buf st) (p + i) = Some (buf st ! (p + i))"
    by (simp add: peek_def)
  show ?thesis
  proof (cases "buf st ! (p + i) = NUL")
    case True
    with assms p i ib pk show ?thesis
      by (auto simp: strtok_def)
  next
    case False
    with assms p i pk obtain j where j: "strcspn (drop (p + i) (buf st)) d = Some j"
      by (cases "strcspn (drop (p + i) (buf st)) d") (auto simp: strtok_def)
    from strcspn_bound [OF j] have jb: "p + i + j < length (buf st)" by auto
    then have pk': "peek (buf st) (p + i + j) = Some (buf st ! (p + i + j))"
      by (simp add: peek_def)
    from ib have hd: "hd (drop (p + i) (buf st)) = buf st ! (p + i)"
      by (simp add: hd_drop_conv_nth)
    from strcspn_pos [OF j] ib hd False stop have "0 < j" by auto
    with assms p i j jb pk pk' False show ?thesis
      by (auto simp: strtok_def Let_def split: if_splits)
  qed
qed

lemma loop_body_room:
  assumes "loop_body t st w = Some (token', st', w')"
  shows "room token' st' < room (Some t) st"
proof -
  from assms obtain r where r: "strcmp (drop t (buf st)) (''print'' @ [NUL]) = Some r"
    by (cases "strcmp (drop t (buf st)) (''print'' @ [NUL])") (auto simp: loop_body_def)
  show ?thesis
  proof (cases "r = 0")
    case False
    with assms r have "strtok None delimiter st = Some (token', st')"
      by (auto simp: loop_body_def split: option.splits)
    from strtok_progress [OF this] show ?thesis
      by (cases token') (auto simp: room_def)
  next
    case True
    with assms r obtain token st1 where
      s1: "strtok None delimiter st = Some (token, st1)" and
      s2: "strtok None delimiter st1 = Some (token', st')"
      by (auto simp: loop_body_def split: option.splits)
    from strtok_progress [OF s1] strtok_progress [OF s2] show ?thesis
      by (cases token') (auto simp: room_def)
  qed
qed

text \<open>The \<open>while (token != NULL)\<close> loop.\<close>

function loop :: "nat option \<Rightarrow> tok_state \<Rightarrow> io \<Rightarrow> io option" where
  "loop token st w =
     (case token of
        None \<Rightarrow> Some w
      | Some t \<Rightarrow>
         (case loop_body t st w of
            None \<Rightarrow> None
          | Some (token', st', w') \<Rightarrow> loop token' st' w'))"
  by pat_completeness auto
termination
  by (relation "measure (\<lambda>(token, st, w). room token st)") (auto simp: loop_body_room)

text \<open>
  The first three statements of \<open>interpret\<close>: \<open>strncpy\<close> into the array \<open>code_copy\<close> of
  \<open>sizeof(code_copy) = MAX_CODE_SIZE\<close> bytes, then NUL into its last byte.
\<close>

definition code_copy :: "char list \<Rightarrow> char list option" where
  "code_copy code =
     (case strncpy MAX_CODE_SIZE code of
        None \<Rightarrow> None
      | Some copied \<Rightarrow> Some (copied[MAX_CODE_SIZE - 1 := NUL]))"

text \<open>The rest of \<open>interpret\<close>: the first \<open>strtok\<close> on the working copy, and the loop.\<close>

definition scan :: "char list \<Rightarrow> io \<Rightarrow> io option" where
  "scan cc w =
     (case strtok (Some 0) delimiter \<lparr>buf = cc, save = None\<rparr> of
        None \<Rightarrow> None
      | Some (token, st) \<Rightarrow> loop token st w)"

text \<open>
  \<open>interpret(code)\<close>, started with the streams \<open>w\<close>; \<open>None\<close> when a read leaves the object
  \<open>code\<close> points into. (The name carries a suffix because the bare word is an Isar command.)
\<close>

definition interpret_c :: "char list \<Rightarrow> io \<Rightarrow> io option" where
  "interpret_c code w =
     (case code_copy code of
        None \<Rightarrow> None
      | Some cc \<Rightarrow> scan cc w)"

section \<open>main\<close>

text \<open>
  What the operating system answers is a parameter of the run: which paths \<open>fopen\<close> can
  open, what \<open>ftell\<close> reports at the end of the file (a \<open>long\<close>), which bytes \<open>fread\<close> can
  deliver from its start, and which requests \<open>malloc\<close> grants.
\<close>

record fstream =
  measured :: int
  stream :: "char list"

record env =
  fopen_file :: "string \<Rightarrow> fstream option"
  malloc_ok :: "nat \<Rightarrow> bool"

text \<open>The calls that acquire or release a resource, in the order main makes them.\<close>

datatype event =
  Fopen string | FopenFailed string | Malloc nat | MallocFailed nat | Free | Fclose

record run =
  exit_code :: int
  stdio :: io
  trace :: "event list"

text \<open>Conversion of a \<open>long\<close> to \<open>size_t\<close> (64 bits), as in the arguments of malloc and fread.\<close>

definition size_t_of :: "int \<Rightarrow> nat" where
  "size_t_of n = nat (n mod 2 ^ 64)"

definition usage_msg :: string where
  "usage_msg = ''Usage: ./interpreter <filename>'' @ [CHR 0x0A]"

definition open_msg :: "string \<Rightarrow> string" where
  "open_msg filename = ''Failed to open the file '' @ [CHR 0x27] @ filename @ [CHR 0x27, CHR 0x0A]"

definition alloc_msg :: string where
  "alloc_msg = ''Memory allocation error'' @ [CHR 0x0A]"

definition read_msg :: "string \<Rightarrow> string" where
  "read_msg filename = ''Failed to read the file '' @ [CHR 0x27] @ filename @ [CHR 0x27, CHR 0x0A]"

text \<open>
  \<open>main(argc, argv)\<close> with \<open>argc = length argv\<close>. \<open>fread\<close> stores the bytes it delivers
  into the allocated object; storing more than were allocated, and the store
  \<open>code[size] = 0\<close> outside the object, have no C behaviour (\<open>None\<close>). For a \<open>long\<close>, both
  need a negative \<open>size\<close>, which \<open>ftell\<close> reports when it fails.
\<close>

definition main :: "env \<Rightarrow> string list \<Rightarrow> run option" where
  "main e argv =
     (if length argv \<noteq> 2 then
        Some \<lparr>exit_code = 1, stdio = fprintf_stderr usage_msg io0, trace = []\<rparr>
      else
        let filename = argv ! 1 in
        (case fopen_file e filename of
           None \<Rightarrow>
             Some \<lparr>exit_code = 1, stdio = fprintf_stderr (open_msg filename) io0,
                   trace = [FopenFailed filename]\<rparr>
         | Some file \<Rightarrow>
             let size = measured file; bytes = size_t_of (size + 1) in
             if \<not> malloc_ok e bytes then
               Some \<lparr>exit_code = 1, stdio = fprintf_stderr alloc_msg io0,
                     trace = [Fopen filename, MallocFailed bytes, Fclose]\<rparr>
             else
               let count = size_t_of size; data = take count (stream file) in
               if bytes < length data then None
               else if length data \<noteq> count then
                 Some \<lparr>exit_code = 1, stdio = fprintf_stderr (read_msg filename) io0,
                       trace = [Fopen filename, Malloc bytes, Free, Fclose]\<rparr>
               else if size < 0 \<or> bytes \<le> nat size then None
               else
                 (case interpret_c (data @ [NUL]) io0 of
                    None \<Rightarrow> None
                  | Some w \<Rightarrow>
                      Some \<lparr>exit_code = 0, stdio = w,
                            trace = [Fopen filename, Malloc bytes, Free, Fclose]\<rparr>)))"

text \<open>The resources held after a trace: is the file open, is the buffer allocated.\<close>

fun held :: "bool \<times> bool \<Rightarrow> event list \<Rightarrow> bool \<times> bool" where
  "held r [] = r"
| "held (f, b) (Fopen n # es) = held (True, b) es"
| "held (f, b) (Fclose # es) = held (False, b) es"
| "held (f, b) (Malloc k # es) = held (f, True) es"
| "held (f, b) (Free # es) = held (f, False) es"
| "held (f, b) (FopenFailed n # es) = held (f, b) es"
| "held (f, b) (MallocFailed k # es) = held (f, b) es"

definition released :: "event list \<Rightarrow> bool" where
  "released tr \<longleftrightarrow> held (False, False) tr = (False, False)"

text \<open>
  The buffer main hands to \<open>interpret\<close> on a run that gets that far: the file opens, its
  size is measured as \<open>n\<close>, the buffer is granted and \<open>fread\<close> delivers \<open>n\<close> bytes.
\<close>

definition load :: "env \<Rightarrow> string \<Rightarrow> char list option" where
  "load e path =
     (case fopen_file e path of
        None \<Rightarrow> None
      | Some file \<Rightarrow>
          if 0 \<le> measured file \<and> measured file < 2 ^ 63
             \<and> malloc_ok e (Suc (nat (measured file)))
             \<and> nat (measured file) \<le> length (stream file)
          then Some (take (nat (measured file)) (stream file) @ [NUL])
          else None)"

section \<open>The specification's reading of the scanner\<close>

text \<open>
  A delimiter is a space, a tab or a newline. Tokens are the maximal runs of other
  characters, from left to right.
\<close>

definition is_delim :: "char \<Rightarrow> bool" where
  "is_delim c \<longleftrightarrow> c = CHR '' '' \<or> c = CHR 0x09 \<or> c = CHR 0x0A"

fun scan_tokens :: "string \<Rightarrow> string \<Rightarrow> string list" where
  "scan_tokens cur [] = (if cur = [] then [] else [cur])"
| "scan_tokens cur (c # cs) =
     (if is_delim c then (if cur = [] then scan_tokens [] cs else cur # scan_tokens [] cs)
      else scan_tokens (cur @ [c]) cs)"

definition tokens :: "string \<Rightarrow> string list" where
  "tokens s = scan_tokens [] s"

text \<open>
  The algorithm of the specification, on the list of tokens: a token equal to \<open>print\<close>
  takes the next token as its argument and writes it, or reports that it is missing when
  no token is left; scanning goes on behind the argument. Any other token is skipped.
\<close>

fun spec_interpret :: "string list \<Rightarrow> io \<Rightarrow> io" where
  "spec_interpret [] w = w"
| "spec_interpret [t] w = (if t = ''print'' then fprintf_stderr missing_msg w else w)"
| "spec_interpret (t # a # ts) w =
     (if t = ''print'' then spec_interpret ts (printf_printed a w)
      else spec_interpret (a # ts) w)"

text \<open>
  The characters of the C string in a buffer, the part of them that fits the working copy
  (the first 999), and the buffers \<open>interpret\<close> can read: a C string, or any object of at
  least \<open>MAX_CODE_SIZE\<close> bytes, of which \<open>strncpy\<close> reads no more.
\<close>

definition c_chars :: "char list \<Rightarrow> string" where
  "c_chars code = takeWhile (\<lambda>c. c \<noteq> NUL) code"

definition scanned :: "char list \<Rightarrow> string" where
  "scanned code = take (MAX_CODE_SIZE - 1) (c_chars code)"

definition readable :: "char list \<Rightarrow> bool" where
  "readable code \<longleftrightarrow> NUL \<in> set code \<or> MAX_CODE_SIZE \<le> length code"

text \<open>An environment with one file, which does not change while it is read.\<close>

definition one_file :: "string \<Rightarrow> char list \<Rightarrow> env" where
  "one_file path bytes =
     \<lparr>fopen_file = (\<lambda>p. if p = path
                           then Some \<lparr>measured = int (length bytes), stream = bytes\<rparr>
                           else None),
      malloc_ok = (\<lambda>n. True)\<rparr>"

text \<open>
  Environments for the failing runs: no file can be opened; no request to \<open>malloc\<close> is
  granted; the file delivers other bytes than its measured size.
\<close>

definition no_such_file :: env where
  "no_such_file = \<lparr>fopen_file = (\<lambda>p. None), malloc_ok = (\<lambda>n. True)\<rparr>"

definition no_memory :: "string \<Rightarrow> char list \<Rightarrow> env" where
  "no_memory path bytes = (one_file path bytes)\<lparr>malloc_ok := (\<lambda>n. False)\<rparr>"

definition shrunk_file :: "string \<Rightarrow> int \<Rightarrow> char list \<Rightarrow> env" where
  "shrunk_file path n bytes =
     \<lparr>fopen_file = (\<lambda>p. if p = path then Some \<lparr>measured = n, stream = bytes\<rparr> else None),
      malloc_ok = (\<lambda>n. True)\<rparr>"

text \<open>
  For the proofs: the first token of a string with the text behind its separator, the
  string \<open>strtok\<close> has still to search, and the tokens a state of the loop has before it.
\<close>

definition next_tok :: "string \<Rightarrow> (string \<times> string) option" where
  "next_tok s =
     (let s' = dropWhile is_delim s in
      if s' = [] then None
      else Some (takeWhile (\<lambda>c. \<not> is_delim c) s', drop 1 (dropWhile (\<lambda>c. \<not> is_delim c) s')))"

definition pending :: "tok_state \<Rightarrow> string option" where
  "pending st = (case save st of None \<Rightarrow> None | Some q \<Rightarrow> cstring (drop q (buf st)))"

definition remaining :: "nat option \<Rightarrow> tok_state \<Rightarrow> string list \<Rightarrow> bool" where
  "remaining token st ts =
     (case token of
        None \<Rightarrow> ts = [] \<and> (\<exists>s. pending st = Some s \<and> tokens s = [])
      | Some b \<Rightarrow> (\<exists>t s. cstring (drop b (buf st)) = Some t \<and> pending st = Some s
                     \<and> ts = t # tokens s))"

section \<open>The scanner computes the specification's tokens\<close>

lemma cstring_append: "NUL \<notin> set s \<Longrightarrow> cstring (s @ NUL # r) = Some s"
  by (induction s) auto

lemma cstring_SomeD: "cstring m = Some s \<Longrightarrow> NUL \<notin> set s \<and> (\<exists>r. m = s @ NUL # r)"
proof (induction m arbitrary: s)
  case Nil
  then show ?case by simp
next
  case (Cons c cs)
  show ?case
  proof (cases "c = NUL")
    case True
    with Cons.prems show ?thesis by simp
  next
    case False
    with Cons.prems obtain s' where s': "cstring cs = Some s'" "s = c # s'"
      by auto
    from Cons.IH [OF s'(1)] False s'(2) show ?thesis by auto
  qed
qed

lemma strspn_append:
  "NUL \<notin> set s \<Longrightarrow> strspn (s @ NUL # r) d = Some (length (takeWhile (\<lambda>c. c \<in> set d) s))"
  by (induction s) auto

lemma strcspn_append:
  "NUL \<notin> set s \<Longrightarrow> strcspn (s @ NUL # r) d = Some (length (takeWhile (\<lambda>c. c \<notin> set d) s))"
  by (induction s) auto

lemma is_delim_iff: "is_delim c \<longleftrightarrow> c \<in> set delimiter"
  by (auto simp: is_delim_def delimiter_def)

lemma NUL_not_delim: "\<not> is_delim NUL"
  by (simp add: is_delim_def NUL_def)

lemma scan_tokens_word:
  "\<forall>c \<in> set t. \<not> is_delim c \<Longrightarrow> scan_tokens cur t = (if cur @ t = [] then [] else [cur @ t])"
  by (induction t arbitrary: cur) auto

lemma scan_tokens_word_delim:
  "\<forall>c \<in> set t. \<not> is_delim c \<Longrightarrow> is_delim d \<Longrightarrow>
   scan_tokens cur (t @ d # rest) =
     (if cur @ t = [] then scan_tokens [] rest else (cur @ t) # scan_tokens [] rest)"
  by (induction t arbitrary: cur) auto

lemma tokens_dropWhile: "tokens (dropWhile is_delim s) = tokens s"
  by (induction s) (auto simp: tokens_def)

lemma tokens_next_tok:
  "tokens s = (case next_tok s of None \<Rightarrow> [] | Some (t, s2) \<Rightarrow> t # tokens s2)"
proof -
  define s' where "s' = dropWhile is_delim s"
  define t where "t = takeWhile (\<lambda>c. \<not> is_delim c) s'"
  define u where "u = dropWhile (\<lambda>c. \<not> is_delim c) s'"
  have s': "s' = t @ u" by (simp add: t_def u_def)
  have t: "\<forall>c \<in> set t. \<not> is_delim c"
    unfolding t_def by (auto dest: set_takeWhileD)
  have ts: "tokens s = tokens s'" by (simp add: s'_def tokens_dropWhile)
  show ?thesis
  proof (cases "s' = []")
    case True
    with ts show ?thesis by (simp add: next_tok_def s'_def [symmetric] tokens_def)
  next
    case False
    then have "\<not> is_delim (hd s')"
      unfolding s'_def by (metis hd_dropWhile)
    with False have tne: "t \<noteq> []"
      unfolding t_def by (cases s') auto
    have nt: "next_tok s = Some (t, drop 1 u)"
      using False by (simp add: next_tok_def s'_def [symmetric] t_def u_def)
    show ?thesis
    proof (cases u)
      case Nil
      with s' t tne ts nt show ?thesis
        by (simp add: tokens_def scan_tokens_word)
    next
      case (Cons d rest)
      then have "is_delim d"
        unfolding u_def by (metis hd_dropWhile list.sel(1) list.distinct(1))
      with Cons s' t tne ts nt show ?thesis
        by (simp add: tokens_def scan_tokens_word_delim)
    qed
  qed
qed

lemma strspn_run:
  "\<forall>c \<in> set a. c \<noteq> NUL \<and> c \<in> set d \<Longrightarrow> x = NUL \<or> x \<notin> set d \<Longrightarrow>
   strspn (a @ x # r) d = Some (length a)"
  by (induction a) auto

lemma strcspn_run:
  "\<forall>c \<in> set t. c \<noteq> NUL \<and> c \<notin> set d \<Longrightarrow> x = NUL \<or> x \<in> set d \<Longrightarrow>
   strcspn (t @ x # r) d = Some (length t)"
  by (induction t) auto

lemma strtok_no_token:
  assumes "buf st = pre @ a @ NUL # r"
    and "\<forall>c \<in> set a. c \<noteq> NUL \<and> c \<in> set d"
  shows "strtok (Some (length pre)) d st = Some (None, st\<lparr>save := Some (length pre + length a)\<rparr>)"
proof -
  have "strspn (drop (length pre) (buf st)) d = Some (length a)"
    using assms by (simp add: strspn_run)
  moreover have "peek (buf st) (length pre + length a) = Some NUL"
    using assms(1) by (simp add: peek_def nth_append)
  ultimately show ?thesis by (simp add: strtok_def)
qed

lemma strtok_last_token:
  assumes "buf st = pre @ a @ t @ NUL # r"
    and "\<forall>c \<in> set a. c \<noteq> NUL \<and> c \<in> set d"
    and "\<forall>c \<in> set t. c \<noteq> NUL \<and> c \<notin> set d"
    and "t \<noteq> []"
  shows "strtok (Some (length pre)) d st =
           Some (Some (length pre + length a),
                 st\<lparr>save := Some (length pre + length a + length t)\<rparr>)"
proof -
  obtain x t' where t: "t = x # t'" using assms(4) by (cases t) auto
  with assms(3) have x: "x \<noteq> NUL" "x \<notin> set d" by auto
  have "strspn (drop (length pre) (buf st)) d = Some (length a)"
    using assms(1,2) x t by (simp add: strspn_run)
  moreover have "peek (buf st) (length pre + length a) = Some x"
    using assms(1) t by (simp add: peek_def nth_append)
  moreover have "strcspn (drop (length pre + length a) (buf st)) d = Some (length t)"
    using assms(1,3) by (simp add: strcspn_run)
  moreover have "peek (buf st) (length pre + length a + length t) = Some NUL"
    using assms(1) by (simp add: peek_def nth_append)
  ultimately show ?thesis using x by (simp add: strtok_def Let_def)
qed

lemma strtok_token:
  assumes "buf st = pre @ a @ t @ x # r"
    and "\<forall>c \<in> set a. c \<noteq> NUL \<and> c \<in> set d"
    and "\<forall>c \<in> set t. c \<noteq> NUL \<and> c \<notin> set d"
    and "t \<noteq> []" and "x \<noteq> NUL" and "x \<in> set d"
  shows "strtok (Some (length pre)) d st =
           Some (Some (length pre + length a),
                 \<lparr>buf = pre @ a @ t @ NUL # r,
                  save = Some (Suc (length pre + length a + length t))\<rparr>)"
proof -
  obtain y t' where t: "t = y # t'" using assms(4) by (cases t) auto
  with assms(3) have y: "y \<noteq> NUL" "y \<notin> set d" by auto
  have "strspn (drop (length pre) (buf st)) d = Some (length a)"
    using assms(1,2) y t by (simp add: strspn_run)
  moreover have "peek (buf st) (length pre + length a) = Some y"
    using assms(1) t by (simp add: peek_def nth_append)
  moreover have "strcspn (drop (length pre + length a) (buf st)) d = Some (length t)"
    using assms(1,3,6) by (simp add: strcspn_run)
  moreover have "peek (buf st) (length pre + length a + length t) = Some x"
    using assms(1) by (simp add: peek_def nth_append)
  moreover have "(buf st)[length pre + length a + length t := NUL] = pre @ a @ t @ NUL # r"
    using assms(1) by (simp add: list_update_append)
  ultimately show ?thesis using y assms(5) by (simp add: strtok_def Let_def)
qed

lemma strtok_at:
  assumes "cstring (drop p (buf st)) = Some s"
  shows "\<exists>token st'. strtok (Some p) delimiter st = Some (token, st')
           \<and> remaining token st' (tokens s)"
proof -
  from cstring_SomeD [OF assms] obtain r where
    nul: "NUL \<notin> set s" and dr: "drop p (buf st) = s @ NUL # r" by auto
  define pre where "pre = take p (buf st)"
  have "p \<le> length (buf st)" using dr by (cases "p \<le> length (buf st)") auto
  then have lp: "length pre = p" by (simp add: pre_def)
  have b: "buf st = pre @ s @ NUL # r"
    using dr by (metis append_take_drop_id pre_def)
  define a where "a = takeWhile is_delim s"
  define s' where "s' = dropWhile is_delim s"
  define t where "t = takeWhile (\<lambda>c. \<not> is_delim c) s'"
  define u where "u = dropWhile (\<lambda>c. \<not> is_delim c) s'"
  have s: "s = a @ t @ u" by (simp add: a_def s'_def t_def u_def)
  have a: "\<forall>c \<in> set a. c \<noteq> NUL \<and> c \<in> set delimiter"
    using nul unfolding a_def by (auto dest: set_takeWhileD simp: is_delim_iff)
  have t: "\<forall>c \<in> set t. c \<noteq> NUL \<and> c \<notin> set delimiter"
    using nul s unfolding t_def by (auto dest: set_takeWhileD simp: is_delim_iff)
  have tn: "NUL \<notin> set t" using t by auto
  show ?thesis
  proof (cases "s' = []")
    case True
    then have sa: "s = a" using s by (simp add: t_def u_def)
    have nt: "next_tok s = None"
      using True by (simp add: next_tok_def s'_def)
    from strtok_no_token [of st pre a r delimiter] b sa a lp
    have "strtok (Some p) delimiter st = Some (None, st\<lparr>save := Some (p + length a)\<rparr>)"
      by simp
    moreover have "pending (st\<lparr>save := Some (p + length a)\<rparr>) = Some []"
      using b sa lp by (simp add: pending_def)
    moreover have "tokens s = []"
      using nt by (simp add: tokens_next_tok)
    ultimately show ?thesis
      by (simp add: remaining_def tokens_def)
  next
    case False
    then have "\<not> is_delim (hd s')"
      unfolding s'_def by (metis hd_dropWhile)
    with False have tne: "t \<noteq> []"
      unfolding t_def by (cases s') auto
    have nt: "next_tok s = Some (t, drop 1 u)"
      using False by (simp add: next_tok_def s'_def [symmetric] t_def u_def)
    then have toks: "tokens s = t # tokens (drop 1 u)"
      by (simp add: tokens_next_tok [of s])
    show ?thesis
    proof (cases u)
      case Nil
      define st' where "st' = st\<lparr>save := Some (p + length a + length t)\<rparr>"
      from strtok_last_token [of st pre a t r delimiter] b s Nil a t tne lp
      have "strtok (Some p) delimiter st = Some (Some (p + length a), st')"
        by (simp add: st'_def)
      moreover have "pending st' = Some []"
        using b s Nil lp by (simp add: pending_def st'_def)
      moreover have "cstring (drop (p + length a) (buf st')) = Some t"
        using b s Nil lp tn by (simp add: st'_def cstring_append)
      ultimately show ?thesis
        using toks Nil by (auto simp: remaining_def)
    next
      case (Cons x u')
      then have "is_delim x"
        unfolding u_def by (metis hd_dropWhile list.sel(1) list.distinct(1))
      then have x: "x \<in> set delimiter" by (simp add: is_delim_iff)
      have xn: "x \<noteq> NUL" using nul s Cons by auto
      have nu: "NUL \<notin> set u'" using nul s Cons by auto
      define st' where
        "st' = \<lparr>buf = pre @ a @ t @ NUL # u' @ NUL # r,
                 save = Some (Suc (p + length a + length t))\<rparr>"
      from strtok_token [of st pre a t x "u' @ NUL # r" delimiter] b s Cons a t tne x xn lp
      have "strtok (Some p) delimiter st = Some (Some (p + length a), st')"
        by (simp add: st'_def)
      moreover have "pending st' = Some u'"
        using lp nu by (simp add: pending_def st'_def cstring_append)
      moreover have "cstring (drop (p + length a) (buf st')) = Some t"
        using lp tn by (simp add: st'_def cstring_append)
      ultimately show ?thesis
        using toks Cons by (auto simp: remaining_def)
    qed
  qed
qed

lemma strtok_continue:
  assumes "pending st = Some s"
  shows "\<exists>token st'. strtok None delimiter st = Some (token, st')
           \<and> remaining token st' (tokens s)"
proof -
  from assms obtain p where p: "save st = Some p" "cstring (drop p (buf st)) = Some s"
    by (cases "save st") (auto simp: pending_def)
  have "strtok None delimiter st = strtok (Some p) delimiter st"
    using p(1) by (simp add: strtok_def)
  with strtok_at [OF p(2)] show ?thesis by simp
qed

lemma strcmp_cstring:
  "cstring m1 = Some s1 \<Longrightarrow> cstring m2 = Some s2 \<Longrightarrow>
   \<exists>r. strcmp m1 m2 = Some r \<and> (r = 0 \<longleftrightarrow> s1 = s2)"
proof (induction m1 m2 arbitrary: s1 s2 rule: strcmp.induct)
  case (1 bs)
  then show ?case by simp
next
  case (2 a as)
  then show ?case by simp
next
  case (3 a as b bs)
  show ?case
  proof (cases "a = b")
    case False
    then have "int (of_char a) - int (of_char b) \<noteq> 0" by simp
    moreover have "s1 \<noteq> s2" using False "3.prems" by (auto split: if_splits)
    ultimately show ?thesis using False by simp
  next
    case True
    show ?thesis
    proof (cases "a = NUL")
      case True
      with \<open>a = b\<close> "3.prems" show ?thesis by simp
    next
      case False
      with \<open>a = b\<close> "3.prems" obtain s1' s2' where
        "cstring as = Some s1'" "cstring bs = Some s2'" "s1 = a # s1'" "s2 = b # s2'"
        by auto
      with "3.IH" [of s1' s2'] \<open>a = b\<close> False show ?thesis by simp
    qed
  qed
qed

lemma strcmp_print:
  assumes "cstring m = Some t"
  shows "\<exists>r. strcmp m (''print'' @ [NUL]) = Some r \<and> (r = 0 \<longleftrightarrow> t = ''print'')"
proof -
  have "cstring (''print'' @ [NUL]) = Some ''print''"
    by (simp add: NUL_def)
  from strcmp_cstring [OF assms this] show ?thesis .
qed

lemma spec_interpret_skip:
  "t \<noteq> ''print'' \<Longrightarrow> spec_interpret (t # ts) w = spec_interpret ts w"
  by (cases ts) auto

lemma loop_None: "loop None st w = Some w"
  by simp

lemma loop_Some:
  "loop (Some t) st w =
     (case loop_body t st w of None \<Rightarrow> None | Some (token', st', w') \<Rightarrow> loop token' st' w')"
  by simp

lemma loop_refines:
  "remaining token st ts \<Longrightarrow> loop token st w = Some (spec_interpret ts w)"
proof (induction "length ts" arbitrary: token st ts w rule: less_induct)
  case less
  show ?case
  proof (cases token)
    case None
    with less.prems show ?thesis by (simp add: remaining_def)
  next
    case (Some b)
    with less.prems obtain t s where
      t: "cstring (drop b (buf st)) = Some t" and s: "pending st = Some s"
      and ts: "ts = t # tokens s"
      by (auto simp: remaining_def)
    from strcmp_print [OF t] obtain r where
      r: "strcmp (drop b (buf st)) (''print'' @ [NUL]) = Some r" "r = 0 \<longleftrightarrow> t = ''print''"
      by auto
    from strtok_continue [OF s] obtain tok1 st1 where
      k1: "strtok None delimiter st = Some (tok1, st1)" and r1: "remaining tok1 st1 (tokens s)"
      by auto
    show ?thesis
    proof (cases "t = ''print''")
      case False
      with r k1 have "loop_body b st w = Some (tok1, st1, w)"
        by (simp add: loop_body_def)
      then have "loop token st w = loop tok1 st1 w"
        using Some by (simp del: loop.simps add: loop_Some)
      also have "\<dots> = Some (spec_interpret (tokens s) w)"
        using less.hyps [OF _ r1] ts by simp
      finally show ?thesis using False ts by (simp add: spec_interpret_skip)
    next
      case True
      show ?thesis
      proof (cases tok1)
        case None
        with r1 obtain s1 where e: "tokens s = []" and s1: "pending st1 = Some s1" "tokens s1 = []"
          by (auto simp: remaining_def)
        from strtok_continue [OF s1(1)] s1(2) obtain tok2 st2 where
          k2: "strtok None delimiter st1 = Some (tok2, st2)" and r2: "remaining tok2 st2 []"
          by auto
        from r True k1 None k2
        have "loop_body b st w = Some (tok2, st2, fprintf_stderr missing_msg w)"
          by (simp add: loop_body_def)
        then have "loop token st w = loop tok2 st2 (fprintf_stderr missing_msg w)"
          using Some by (simp del: loop.simps add: loop_Some)
        also have "\<dots> = Some (spec_interpret [] (fprintf_stderr missing_msg w))"
          using less.hyps [OF _ r2] ts by simp
        finally show ?thesis using True ts e by simp
      next
        case (Some b1)
        with r1 obtain a s1 where a: "cstring (drop b1 (buf st1)) = Some a"
          and s1: "pending st1 = Some s1" and e: "tokens s = a # tokens s1"
          by (auto simp: remaining_def)
        from strtok_continue [OF s1] obtain tok2 st2 where
          k2: "strtok None delimiter st1 = Some (tok2, st2)"
          and r2: "remaining tok2 st2 (tokens s1)"
          by auto
        from r True k1 Some a k2
        have "loop_body b st w = Some (tok2, st2, printf_printed a w)"
          by (simp add: loop_body_def)
        then have "loop token st w = loop tok2 st2 (printf_printed a w)"
          using \<open>token = Some b\<close> by (simp del: loop.simps add: loop_Some)
        also have "\<dots> = Some (spec_interpret (tokens s1) (printf_printed a w))"
          using less.hyps [OF _ r2] ts e by simp
        finally show ?thesis using True ts e by simp
      qed
    qed
  qed
qed

lemma strncpy_eq:
  "NUL \<in> set code \<or> n \<le> length code \<Longrightarrow>
   strncpy n code = Some (take n (c_chars code) @ replicate (n - length (c_chars code)) NUL)"
proof (induction n code rule: strncpy.induct)
  case (1 src)
  then show ?case by simp
next
  case (2 n)
  then show ?case by simp
next
  case (3 n c cs)
  then show ?case by (cases "c = NUL") (auto simp: c_chars_def)
qed

lemma strncpy_None: "strncpy n code = None \<longleftrightarrow> NUL \<notin> set code \<and> length code < n"
proof (induction n code rule: strncpy.induct)
  case (1 src)
  then show ?case by simp
next
  case (2 n)
  then show ?case by simp
next
  case (3 n c cs)
  then show ?case by (cases "c = NUL") auto
qed

lemma code_copy_None: "code_copy code = None \<longleftrightarrow> \<not> readable code"
proof (cases "strncpy MAX_CODE_SIZE code")
  case None
  then have "code_copy code = None" by (simp add: code_copy_def)
  moreover have "\<not> readable code"
    using None strncpy_None [of MAX_CODE_SIZE code] by (simp add: readable_def)
  ultimately show ?thesis by simp
next
  case (Some copied)
  then have "\<not> (NUL \<notin> set code \<and> length code < MAX_CODE_SIZE)"
    using strncpy_None [of MAX_CODE_SIZE code] by simp
  with Some show ?thesis
    by (auto simp: code_copy_def readable_def)
qed

lemma scanned_no_NUL: "NUL \<notin> set (scanned code)"
  unfolding scanned_def c_chars_def by (auto dest: in_set_takeD set_takeWhileD)

lemma length_scanned: "length (scanned code) < MAX_CODE_SIZE"
  by (simp add: scanned_def MAX_CODE_SIZE_def)

lemma code_copy_eq:
  assumes "readable code"
  shows "code_copy code =
           Some (scanned code @ replicate (MAX_CODE_SIZE - length (scanned code)) NUL)"
proof -
  define s where "s = c_chars code"
  from assms have "NUL \<in> set code \<or> MAX_CODE_SIZE \<le> length code"
    by (simp add: readable_def)
  from strncpy_eq [OF this]
  have c: "strncpy MAX_CODE_SIZE code = Some (take 1000 s @ replicate (1000 - length s) NUL)"
    by (simp add: s_def MAX_CODE_SIZE_def)
  define copied where "copied = take 1000 s @ replicate (1000 - length s) NUL"
  have "copied[999 := NUL] = take 999 s @ replicate (1000 - length (take 999 s)) NUL"
  proof (cases "length s < 1000")
    case True
    then have "copied = s @ replicate (999 - length s) NUL @ [NUL]"
      by (simp add: copied_def replicate_append_same Suc_diff_le flip: replicate_Suc)
    then have "copied[999 := NUL] = s @ replicate (999 - length s) NUL @ [NUL]"
      using True by (simp add: list_update_append)
    then show ?thesis
      using True
      by (simp add: replicate_append_same Suc_diff_le flip: replicate_Suc)
  next
    case False
    then have "copied = take 999 s @ [s ! 999]"
      by (simp add: copied_def take_Suc_conv_app_nth [of 999 s, simplified])
    then have "copied[999 := NUL] = take 999 s @ [NUL]"
      using False by (simp add: list_update_append)
    then show ?thesis
      using False by simp
  qed
  with c show ?thesis
    by (simp add: code_copy_def scanned_def s_def copied_def MAX_CODE_SIZE_def)
qed

lemma scan_refines:
  assumes "cstring cc = Some s"
  shows "scan cc w = Some (spec_interpret (tokens s) w)"
proof -
  define st where "st = \<lparr>buf = cc, save = None\<rparr>"
  have "cstring (drop 0 (buf st)) = Some s"
    using assms by (simp add: st_def)
  from strtok_at [OF this] obtain token st' where
    "strtok (Some 0) delimiter st = Some (token, st')"
    "remaining token st' (tokens s)"
    by auto
  with loop_refines [of token st' "tokens s" w] show ?thesis
    by (simp add: scan_def st_def)
qed

lemma cstring_code_copy:
  assumes "code_copy code = Some cc"
  shows "cstring cc = Some (scanned code)"
proof -
  from assms have r: "readable code"
    using code_copy_None [of code] by auto
  define n where "n = MAX_CODE_SIZE - length (scanned code)"
  have "0 < n" using length_scanned [of code] by (simp add: n_def)
  then obtain k where k: "n = Suc k" by (cases n) auto
  have "cc = scanned code @ NUL # replicate k NUL"
    using code_copy_eq [OF r] assms k by (simp add: n_def)
  then show ?thesis
    by (simp add: cstring_append scanned_no_NUL)
qed

lemma interpret_c_spec:
  assumes "readable code"
  shows "interpret_c code w = Some (spec_interpret (tokens (scanned code)) w)"
proof -
  from assms obtain cc where cc: "code_copy code = Some cc"
    using code_copy_None [of code] by (cases "code_copy code") auto
  from scan_refines [OF cstring_code_copy [OF cc]] cc show ?thesis
    by (simp add: interpret_c_def)
qed

lemma readable_terminated: "readable (bytes @ [NUL])"
  by (simp add: readable_def)

lemma c_chars_terminated: "c_chars (bytes @ [NUL]) = c_chars bytes"
  by (induction bytes) (auto simp: c_chars_def)

lemma scanned_terminated: "scanned (bytes @ [NUL]) = scanned bytes"
  by (simp add: scanned_def c_chars_terminated)

lemma load_readable: "load e path = Some code \<Longrightarrow> readable code"
  by (auto simp: load_def readable_def split: option.splits if_splits)

lemma size_t_of_nat: "0 \<le> n \<Longrightarrow> n < 2 ^ 64 \<Longrightarrow> size_t_of n = nat n"
  by (simp add: size_t_of_def)

lemma main_load:
  assumes "load e path = Some code"
  shows "\<exists>n. main e [prog, path] =
           Some \<lparr>exit_code = 0, stdio = spec_interpret (tokens (scanned code)) io0,
                 trace = [Fopen path, Malloc n, Free, Fclose]\<rparr>"
proof -
  from assms obtain f where f: "fopen_file e path = Some f"
    by (cases "fopen_file e path") (auto simp: load_def)
  define n where "n = nat (measured f)"
  from assms f have m: "0 \<le> measured f" "measured f < 2 ^ 63" "malloc_ok e (Suc n)"
    "n \<le> length (stream f)" and code: "code = take n (stream f) @ [NUL]"
    by (auto simp: load_def n_def split: if_splits)
  have s1: "size_t_of (measured f) = n"
    using m(1,2) by (simp add: size_t_of_nat n_def)
  have s2: "size_t_of (measured f + 1) = Suc n"
    using m(1,2) by (simp add: size_t_of_nat n_def Suc_nat_eq_nat_zadd1 add.commute)
  have i: "interpret_c code io0 = Some (spec_interpret (tokens (scanned code)) io0)"
    using load_readable [OF assms] by (rule interpret_c_spec)
  have "main e [prog, path] =
           Some \<lparr>exit_code = 0, stdio = spec_interpret (tokens (scanned code)) io0,
                 trace = [Fopen path, Malloc (Suc n), Free, Fclose]\<rparr>"
    using f m s1 s2 i code by (simp add: main_def Let_def n_def [symmetric])
  then show ?thesis ..
qed

section \<open>Properties of the specification's algorithm\<close>

lemma spec_interpret_no_print:
  "''print'' \<notin> set ts \<Longrightarrow> spec_interpret ts w = w"
  by (induction ts w rule: spec_interpret.induct) auto

lemma spec_interpret_prefix:
  "''print'' \<notin> set pre \<Longrightarrow> spec_interpret (pre @ ts) w = spec_interpret ts w"
  by (induction pre) (auto simp: spec_interpret_skip)

lemma spec_interpret_aligned:
  "pre = [] \<or> last pre \<noteq> ''print'' \<Longrightarrow>
   spec_interpret (pre @ ts) w = spec_interpret ts (spec_interpret pre w)"
proof (induction pre w rule: spec_interpret.induct)
  case (1 w)
  then show ?case by simp
next
  case (2 t w)
  then show ?case by (simp add: spec_interpret_skip)
next
  case (3 t a rest w)
  then show ?case by (cases "rest = []") auto
qed

lemma spec_interpret_pairs:
  "spec_interpret (replicate (2 * k) ''print'' @ ts) w =
     spec_interpret ts (spec_interpret (replicate (2 * k) ''print'') w)"
  by (induction k arbitrary: w) auto

lemma spec_interpret_err:
  "err (spec_interpret ts w) = err w \<or> err (spec_interpret ts w) = err w @ missing_msg"
  by (induction ts w rule: spec_interpret.induct)
     (auto simp: fprintf_stderr_def printf_printed_def)

lemma tokens_spaces: "tokens (replicate n (CHR '' '') @ s) = tokens s"
  by (induction n) (auto simp: tokens_def is_delim_def)

lemma c_chars_take: "take n (c_chars code) = c_chars (take n code)"
  unfolding c_chars_def by (induction code arbitrary: n) (auto simp: take_Cons')

lemma c_chars_Nil: "c_chars [] = []"
  by (simp add: c_chars_def)

lemma c_chars_Cons: "c_chars (c # cs) = (if c = NUL then [] else c # c_chars cs)"
  by (simp add: c_chars_def)

lemma c_chars_replicate: "x \<noteq> NUL \<Longrightarrow> c_chars (replicate n x @ s) = replicate n x @ c_chars s"
  by (induction n) (auto simp: c_chars_def)

lemmas eval_chars = c_chars_Nil c_chars_Cons c_chars_replicate NUL_def

lemma load_one_file:
  "length bytes < 2 ^ 63 \<Longrightarrow> load (one_file path bytes) path = Some (bytes @ [NUL])"
  by (simp add: load_def one_file_def)

lemma c_chars_long:
  assumes "n \<le> length (c_chars code)"
  shows "take n (c_chars code) = take n code"
proof -
  have "c_chars code = take (length (c_chars code)) code"
    unfolding c_chars_def by (induction code) auto
  then have "take n (c_chars code) = take n (take (length (c_chars code)) code)"
    by simp
  also have "\<dots> = take n code"
    using assms by (simp add: min_def)
  finally show ?thesis .
qed

lemma length_c_chars: "length (c_chars code) \<le> length code"
  unfolding c_chars_def by (rule length_takeWhile_le)

lemma c_chars_append_NUL: "NUL \<notin> set s \<Longrightarrow> c_chars (s @ NUL # r) = s"
  by (induction s) (auto simp: c_chars_def)

lemma c_chars_short: "NUL \<in> set (take n bytes) \<Longrightarrow> length (c_chars bytes) < n"
proof (induction bytes arbitrary: n)
  case Nil
  then show ?case by simp
next
  case (Cons c cs)
  then show ?case
    by (cases n) (auto simp: c_chars_def)
qed

lemma spec_interpret_aligned_err:
  "ts = [] \<or> last ts \<noteq> ''print'' \<Longrightarrow> err (spec_interpret ts w) = err w"
proof (induction ts w rule: spec_interpret.induct)
  case (1 w)
  then show ?case by simp
next
  case (2 t w)
  then show ?case by simp
next
  case (3 t a rest w)
  then show ?case by (cases "rest = []") (auto simp: printf_printed_def)
qed

lemma spec_interpret_pairs_err:
  "err (spec_interpret (replicate (2 * k) ''print'') w) = err w"
  by (induction k arbitrary: w) (auto simp: printf_printed_def)

section \<open>The claims\<close>

subsection \<open>C1: a single print command\<close>

text \<open>
  C1, for the text that is scanned. For every readable input buffer whose first 999
  characters (the characters before the first NUL, cut to 999) hold the token \<open>print\<close>
  immediately followed by a token \<open>x\<close>, with no \<open>print\<close> among the tokens before it and
  none among the tokens after \<open>x\<close>, \<open>interpret\<close> appends exactly the line \<open>Printed: x\<close> to
  standard output and leaves standard error as it was.
\<close>

theorem print_single_argument:
  assumes "readable code"
    and "tokens (scanned code) = pre @ ''print'' # x # post"
    and "''print'' \<notin> set pre" and "''print'' \<notin> set post"
  shows "interpret_c code w = Some (w\<lparr>out := out w @ ''Printed: '' @ x @ [CHR 0x0A]\<rparr>)"
proof -
  have "spec_interpret (tokens (scanned code)) w = spec_interpret (''print'' # x # post) w"
    using assms(2,3) by (simp add: spec_interpret_prefix)
  also have "\<dots> = printf_printed x w"
    using assms(4) by (simp add: spec_interpret_no_print)
  finally show ?thesis
    using interpret_c_spec [OF assms(1), of w] by (simp add: printf_printed_def)
qed

theorem print_single_argument_witness:
  "readable (''print hello'' @ [NUL])
   \<and> tokens (scanned (''print hello'' @ [NUL])) = [] @ ''print'' # ''hello'' # []
   \<and> ''print'' \<notin> set ([] :: string list)
   \<and> interpret_c (''print hello'' @ [NUL]) io0
       = Some \<lparr>out = ''Printed: hello'' @ [CHR 0x0A], err = []\<rparr>"
proof -
  have r: "readable (''print hello'' @ [NUL])"
    by (simp add: readable_def)
  have t: "tokens (scanned (''print hello'' @ [NUL])) = [] @ ''print'' # ''hello'' # []"
    by (simp add: scanned_def eval_chars MAX_CODE_SIZE_def tokens_def is_delim_def)
  have n: "''print'' \<notin> set ([] :: string list)" by simp
  from print_single_argument [OF r t n n, of io0] r t show ?thesis
    by (simp add: io0_def)
qed

text \<open>
  C1 does not hold of the tokens of the whole buffer. The buffer of 994 spaces followed by
  \<open>print hello\<close> has exactly the tokens \<open>print\<close> and \<open>hello\<close>, but the working copy ends
  behind \<open>print\<close>: nothing is written to standard output, and the missing argument is
  reported.
\<close>

theorem truncated_print_counterexample:
  "tokens (c_chars (replicate 994 (CHR '' '') @ ''print hello'' @ [NUL])) = [''print'', ''hello'']
   \<and> interpret_c (replicate 994 (CHR '' '') @ ''print hello'' @ [NUL]) io0
       = Some \<lparr>out = [], err = ''Error: Missing argument for print'' @ [CHR 0x0A]\<rparr>"
proof -
  let ?I = "replicate 994 (CHR '' '') @ ''print hello'' @ [NUL]"
  have a: "tokens (c_chars ?I) = [''print'', ''hello'']"
    by (simp add: eval_chars tokens_spaces) (simp add: tokens_def is_delim_def)
  have "scanned ?I = replicate 994 (CHR '' '') @ ''print''"
    by (simp add: scanned_def MAX_CODE_SIZE_def eval_chars)
  then have "tokens (scanned ?I) = [''print'']"
    by (simp add: tokens_spaces) (simp add: tokens_def is_delim_def)
  moreover have "readable ?I" by (simp add: readable_def)
  ultimately have "interpret_c ?I io0 = Some (spec_interpret [''print''] io0)"
    using interpret_c_spec [of ?I io0] by simp
  with a show ?thesis
    by (simp add: io0_def fprintf_stderr_def missing_msg_def)
qed

subsection \<open>C2: print as the last token\<close>

text \<open>
  C2, for a last \<open>print\<close> that is a command. Let the first 999 characters of a readable
  input end in the token \<open>print\<close>, preceded by an even number of consecutive \<open>print\<close>
  tokens (so that the last one is not the argument of the one before it), and let \<open>code'\<close>
  be an input with the same tokens but the last. Then \<open>interpret\<close> does on the input what
  it does on \<open>code'\<close>, which writes nothing to standard error, and then appends
  \<open>Error: Missing argument for print\<close> to standard error: nothing more reaches standard
  output, and the scan ends there. A run of main that hands this input to \<open>interpret\<close>
  exits with code 0.
\<close>

theorem missing_argument_reported:
  assumes "readable code" and "readable code'"
    and "tokens (scanned code') = pre @ replicate (2 * k) ''print''"
    and "pre = [] \<or> last pre \<noteq> ''print''"
    and "tokens (scanned code) = tokens (scanned code') @ [''print'']"
  shows "(\<exists>w'. interpret_c code' w = Some w' \<and> err w' = err w
            \<and> interpret_c code w = Some (w'\<lparr>err := err w @ missing_msg\<rparr>))
         \<and> (load e path = Some code \<longrightarrow>
              (\<exists>r. main e [prog, path] = Some r \<and> exit_code r = 0
                   \<and> interpret_c code io0 = Some (stdio r)))"
proof -
  let ?R = "replicate (2 * k) ''print''"
  have "spec_interpret (tokens (scanned code)) w = spec_interpret ((pre @ ?R) @ [''print'']) w"
    using assms(3,5) by simp
  also have "\<dots> = spec_interpret (?R @ [''print'']) (spec_interpret pre w)"
    using assms(4) by (simp add: spec_interpret_aligned)
  also have "\<dots> = spec_interpret [''print''] (spec_interpret ?R (spec_interpret pre w))"
    by (rule spec_interpret_pairs)
  also have "spec_interpret ?R (spec_interpret pre w) = spec_interpret (pre @ ?R) w"
    using assms(4) spec_interpret_aligned [of pre ?R w] by simp
  finally have run: "spec_interpret (tokens (scanned code)) w
      = fprintf_stderr missing_msg (spec_interpret (tokens (scanned code')) w)"
    using assms(3) by simp
  have "err (spec_interpret (tokens (scanned code')) w)
      = err (spec_interpret ?R (spec_interpret pre w))"
    using assms(3,4) by (simp add: spec_interpret_aligned)
  also have "\<dots> = err w"
    using assms(4) by (simp add: spec_interpret_pairs_err spec_interpret_aligned_err)
  finally have quiet: "err (spec_interpret (tokens (scanned code')) w) = err w" .
  have a: "\<exists>w'. interpret_c code' w = Some w' \<and> err w' = err w
            \<and> interpret_c code w = Some (w'\<lparr>err := err w @ missing_msg\<rparr>)"
    using interpret_c_spec [OF assms(1), of w] interpret_c_spec [OF assms(2), of w] run quiet
    by (simp add: fprintf_stderr_def)
  have b: "\<exists>r. main e [prog, path] = Some r \<and> exit_code r = 0
              \<and> interpret_c code io0 = Some (stdio r)"
    if "load e path = Some code"
  proof -
    from main_load [OF that, of prog] obtain n where
      "main e [prog, path] =
         Some \<lparr>exit_code = 0, stdio = spec_interpret (tokens (scanned code)) io0,
               trace = [Fopen path, Malloc n, Free, Fclose]\<rparr>" ..
    then show ?thesis
      using interpret_c_spec [OF assms(1), of io0] by simp
  qed
  from a b show ?thesis by blast
qed

theorem missing_argument_reported_witness:
  "readable (''foo print'' @ [NUL]) \<and> readable (''foo'' @ [NUL])
   \<and> tokens (scanned (''foo'' @ [NUL])) = [''foo''] @ replicate (2 * 0) ''print''
   \<and> last [''foo''] \<noteq> ''print''
   \<and> tokens (scanned (''foo print'' @ [NUL])) = tokens (scanned (''foo'' @ [NUL])) @ [''print'']
   \<and> load (one_file ''prog.txt'' ''foo print'') ''prog.txt'' = Some (''foo print'' @ [NUL])
   \<and> interpret_c (''foo print'' @ [NUL]) io0
        = Some \<lparr>out = [], err = ''Error: Missing argument for print'' @ [CHR 0x0A]\<rparr>
   \<and> (\<exists>r. main (one_file ''prog.txt'' ''foo print'') [''./interpreter'', ''prog.txt''] = Some r
          \<and> exit_code r = 0)"
proof -
  let ?c = "''foo print'' @ [NUL]" and ?c' = "''foo'' @ [NUL]"
  have r: "readable ?c" and r': "readable ?c'"
    by (simp_all add: readable_def)
  have t': "tokens (scanned ?c') = [''foo''] @ replicate (2 * 0) ''print''"
    by (simp add: scanned_def eval_chars MAX_CODE_SIZE_def tokens_def is_delim_def)
  have l: "[''foo''] = [] \<or> last [''foo''] \<noteq> ''print''" by simp
  have t: "tokens (scanned ?c) = tokens (scanned ?c') @ [''print'']"
    by (simp add: scanned_def eval_chars MAX_CODE_SIZE_def tokens_def is_delim_def)
  have ld: "load (one_file ''prog.txt'' ''foo print'') ''prog.txt'' = Some ?c"
    using load_one_file [of "''foo print''" "''prog.txt''"] by simp
  have i': "interpret_c ?c' io0 = Some io0"
    using interpret_c_spec [OF r', of io0] t' by simp
  from missing_argument_reported [OF r r' t' l t, of io0 "one_file ''prog.txt'' ''foo print''"
      "''prog.txt''" "''./interpreter''"] i' ld
  have "interpret_c ?c io0 = Some (io0\<lparr>err := err io0 @ missing_msg\<rparr>)"
    and "\<exists>r. main (one_file ''prog.txt'' ''foo print'') [''./interpreter'', ''prog.txt''] = Some r
          \<and> exit_code r = 0"
    by auto
  with ld r r' t' t show ?thesis
    by (simp add: io0_def missing_msg_def)
qed

text \<open>
  C2 does not hold of every input whose last token is \<open>print\<close>. In \<open>print print\<close> the last
  token is the argument of the first: it is printed, and nothing is reported.
\<close>

theorem print_print_counterexample:
  "tokens (c_chars (''print print'' @ [NUL])) = [''print'', ''print'']
   \<and> interpret_c (''print print'' @ [NUL]) io0
       = Some \<lparr>out = ''Printed: print'' @ [CHR 0x0A], err = []\<rparr>"
proof -
  let ?I = "''print print'' @ [NUL]"
  have a: "tokens (c_chars ?I) = [''print'', ''print'']"
    by (simp add: eval_chars tokens_def is_delim_def)
  have "tokens (scanned ?I) = [''print'', ''print'']"
    by (simp add: scanned_def eval_chars MAX_CODE_SIZE_def tokens_def is_delim_def)
  moreover have "readable ?I" by (simp add: readable_def)
  ultimately have "interpret_c ?I io0 = Some (spec_interpret [''print'', ''print''] io0)"
    using interpret_c_spec [of ?I io0] by simp
  with a show ?thesis
    by (simp add: io0_def printf_printed_def)
qed

subsection \<open>C3: the argument of print\<close>

text \<open>
  C3, for the text that is scanned. For every readable input, \<open>interpret\<close> does to the
  streams what the algorithm of the specification does on the tokens of the first 999
  characters (the characters before the first NUL, cut to 999). A \<open>print\<close> among them
  that follows a completed prefix (empty, or ending in another token than \<open>print\<close>)
  takes the token behind it as its argument, whatever that token is: the prefix is
  processed, the line \<open>Printed: a\<close> is written once, and the scan goes on with the tokens
  behind \<open>a\<close>. In particular \<open>print print print hello\<close> writes \<open>Printed: print\<close> and then
  \<open>Printed: hello\<close> to standard output, and nothing else.
\<close>

theorem argument_consumed_once:
  "(readable code \<longrightarrow> interpret_c code w = Some (spec_interpret (tokens (scanned code)) w))
   \<and> (readable code \<and> tokens (scanned code) = pre @ ''print'' # a # rest
        \<and> (pre = [] \<or> last pre \<noteq> ''print'') \<longrightarrow>
        interpret_c code w
          = Some (spec_interpret rest
                   ((spec_interpret pre w)\<lparr>out := out (spec_interpret pre w)
                                                  @ ''Printed: '' @ a @ [CHR 0x0A]\<rparr>)))
   \<and> interpret_c (''print print print hello'' @ [NUL]) io0
       = Some \<lparr>out = ''Printed: print'' @ [CHR 0x0A] @ ''Printed: hello'' @ [CHR 0x0A],
               err = []\<rparr>"
proof -
  let ?I = "''print print print hello'' @ [NUL]"
  have "tokens (scanned ?I) = [''print'', ''print'', ''print'', ''hello'']"
    by (simp add: scanned_def eval_chars MAX_CODE_SIZE_def tokens_def is_delim_def)
  moreover have "readable ?I" by (simp add: readable_def)
  ultimately have
    "interpret_c ?I io0 = Some (spec_interpret [''print'', ''print'', ''print'', ''hello''] io0)"
    using interpret_c_spec [of ?I io0] by simp
  then have ex: "interpret_c ?I io0
       = Some \<lparr>out = ''Printed: print'' @ [CHR 0x0A] @ ''Printed: hello'' @ [CHR 0x0A],
               err = []\<rparr>"
    by (simp add: io0_def printf_printed_def)
  have step: "interpret_c code w
          = Some (spec_interpret rest
                   ((spec_interpret pre w)\<lparr>out := out (spec_interpret pre w)
                                                  @ ''Printed: '' @ a @ [CHR 0x0A]\<rparr>))"
    if r: "readable code" and t: "tokens (scanned code) = pre @ ''print'' # a # rest"
      and p: "pre = [] \<or> last pre \<noteq> ''print''"
  proof -
    have "spec_interpret (tokens (scanned code)) w
        = spec_interpret (''print'' # a # rest) (spec_interpret pre w)"
      using t p by (simp add: spec_interpret_aligned)
    also have "\<dots> = spec_interpret rest (printf_printed a (spec_interpret pre w))"
      by simp
    finally show ?thesis
      using interpret_c_spec [OF r, of w] by (simp add: printf_printed_def)
  qed
  from ex step show ?thesis
    using interpret_c_spec [of code w] by blast
qed

theorem argument_consumed_once_witness:
  "readable (''x print print y'' @ [NUL])
   \<and> tokens (scanned (''x print print y'' @ [NUL])) = [''x''] @ ''print'' # ''print'' # [''y'']
   \<and> last [''x''] \<noteq> ''print''
   \<and> interpret_c (''x print print y'' @ [NUL]) io0
       = Some \<lparr>out = ''Printed: print'' @ [CHR 0x0A], err = []\<rparr>"
proof -
  let ?I = "''x print print y'' @ [NUL]"
  have r: "readable ?I" by (simp add: readable_def)
  have t: "tokens (scanned ?I) = [''x''] @ ''print'' # ''print'' # [''y'']"
    by (simp add: scanned_def eval_chars MAX_CODE_SIZE_def tokens_def is_delim_def)
  have p: "[''x''] = [] \<or> last [''x''] \<noteq> ''print''" by simp
  from argument_consumed_once [of ?I io0 "[''x'']" "''print''" "[''y'']"] r t p
  have "interpret_c ?I io0
          = Some (spec_interpret [''y'']
                   ((spec_interpret [''x''] io0)\<lparr>out := out (spec_interpret [''x''] io0)
                                                  @ ''Printed: '' @ ''print'' @ [CHR 0x0A]\<rparr>))"
    by blast
  with r t show ?thesis
    by (simp add: io0_def)
qed

text \<open>
  C3 does not hold of the tokens of the whole buffer. In the buffer of 989 spaces followed
  by \<open>print hello\<close> the token behind \<open>print\<close> is \<open>hello\<close>, but the working copy ends
  behind \<open>hell\<close>, and that is the argument written.
\<close>

theorem truncated_argument_counterexample:
  "tokens (c_chars (replicate 989 (CHR '' '') @ ''print hello'' @ [NUL])) = [''print'', ''hello'']
   \<and> interpret_c (replicate 989 (CHR '' '') @ ''print hello'' @ [NUL]) io0
       = Some \<lparr>out = ''Printed: hell'' @ [CHR 0x0A], err = []\<rparr>"
proof -
  let ?I = "replicate 989 (CHR '' '') @ ''print hello'' @ [NUL]"
  have a: "tokens (c_chars ?I) = [''print'', ''hello'']"
    by (simp add: eval_chars tokens_spaces) (simp add: tokens_def is_delim_def)
  have "scanned ?I = replicate 989 (CHR '' '') @ ''print hell''"
    by (simp add: scanned_def MAX_CODE_SIZE_def eval_chars)
  then have "tokens (scanned ?I) = [''print'', ''hell'']"
    by (simp add: tokens_spaces) (simp add: tokens_def is_delim_def)
  moreover have "readable ?I" by (simp add: readable_def)
  ultimately have "interpret_c ?I io0 = Some (spec_interpret [''print'', ''hell''] io0)"
    using interpret_c_spec [of ?I io0] by simp
  with a show ?thesis
    by (simp add: io0_def printf_printed_def)
qed

subsection \<open>C4: inputs of 1000 characters or more\<close>

text \<open>
  C4. For every input buffer whose string has 1000 characters or more, the working copy
  is the first 999 characters and a terminator, \<open>interpret\<close> interprets exactly the
  tokens of these 999 characters, as it does on them alone, and standard error receives
  nothing but, at most, the one message about a missing argument: the truncation is not
  reported.
\<close>

theorem long_input_truncated:
  assumes "MAX_CODE_SIZE \<le> length (c_chars code)"
  shows "code_copy code = Some (take (MAX_CODE_SIZE - 1) code @ [NUL])
         \<and> interpret_c code w
             = Some (spec_interpret (tokens (take (MAX_CODE_SIZE - 1) code)) w)
         \<and> interpret_c code w = interpret_c (take (MAX_CODE_SIZE - 1) code @ [NUL]) w
         \<and> (\<exists>w'. interpret_c code w = Some w'
                \<and> (err w' = err w \<or> err w' = err w @ missing_msg))"
proof -
  let ?cut = "take (MAX_CODE_SIZE - 1) code"
  have r: "readable code"
    using assms length_c_chars [of code] by (simp add: readable_def)
  have s: "scanned code = ?cut"
    using assms by (simp add: scanned_def c_chars_long)
  have l: "length (scanned code) = MAX_CODE_SIZE - 1"
    using assms by (simp add: scanned_def MAX_CODE_SIZE_def)
  have "code_copy code = Some (scanned code @ replicate (MAX_CODE_SIZE - length (scanned code)) NUL)"
    using r by (rule code_copy_eq)
  then have a: "code_copy code = Some (?cut @ [NUL])"
    using s l by (simp add: MAX_CODE_SIZE_def)
  have d: "interpret_c code w = Some (spec_interpret (tokens ?cut) w)"
    using interpret_c_spec [OF r, of w] s by simp
  have "c_chars ?cut = ?cut"
    using s by (simp add: scanned_def c_chars_take)
  then have "scanned (?cut @ [NUL]) = scanned code"
    using s by (simp add: scanned_terminated) (simp add: scanned_def)
  then have b: "interpret_c code w = interpret_c (?cut @ [NUL]) w"
    using interpret_c_spec [OF r, of w]
      interpret_c_spec [OF readable_terminated, of ?cut w] by simp
  have c: "\<exists>w'. interpret_c code w = Some w'
                \<and> (err w' = err w \<or> err w' = err w @ missing_msg)"
    using interpret_c_spec [OF r, of w] spec_interpret_err [of "tokens (scanned code)" w]
    by simp
  from a b c d show ?thesis by blast
qed

theorem long_input_truncated_witness:
  "MAX_CODE_SIZE \<le> length (c_chars (replicate 992 (CHR '' '') @ ''print x print y'' @ [NUL]))
   \<and> code_copy (replicate 992 (CHR '' '') @ ''print x print y'' @ [NUL])
       = Some (replicate 992 (CHR '' '') @ ''print x'' @ [NUL])
   \<and> interpret_c (replicate 992 (CHR '' '') @ ''print x print y'' @ [NUL]) io0
       = Some \<lparr>out = ''Printed: x'' @ [CHR 0x0A], err = []\<rparr>"
proof -
  let ?I = "replicate 992 (CHR '' '') @ ''print x print y'' @ [NUL]"
  have h: "MAX_CODE_SIZE \<le> length (c_chars ?I)"
    by (simp add: eval_chars MAX_CODE_SIZE_def)
  have c: "take (MAX_CODE_SIZE - 1) ?I = replicate 992 (CHR '' '') @ ''print x''"
    by (simp add: MAX_CODE_SIZE_def)
  have t: "tokens (replicate 992 (CHR '' '') @ ''print x'') = [''print'', ''x'']"
    by (simp add: tokens_spaces) (simp add: tokens_def is_delim_def)
  from long_input_truncated [OF h, of io0]
  have "code_copy ?I = Some (take (MAX_CODE_SIZE - 1) ?I @ [NUL])"
    and "interpret_c ?I io0 = Some (spec_interpret (tokens (take (MAX_CODE_SIZE - 1) ?I)) io0)"
    by blast+
  then have "code_copy ?I = Some (replicate 992 (CHR '' '') @ ''print x'' @ [NUL])"
    and "interpret_c ?I io0 = Some \<lparr>out = ''Printed: x'' @ [CHR 0x0A], err = []\<rparr>"
    unfolding c t by (simp_all add: io0_def printf_printed_def)
  with h show ?thesis by blast
qed

subsection \<open>C5: inputs without print\<close>

text \<open>
  C5, for the text that is scanned. For every readable input whose first 999 characters
  (the characters before the first NUL, cut to 999) hold no token equal to \<open>print\<close>,
  \<open>interpret\<close> writes nothing to either stream, and a run of main that hands this input
  to \<open>interpret\<close> exits with code 0 and both streams empty. The empty file is such an
  input.
\<close>

theorem no_print_no_output:
  assumes "readable code" and "''print'' \<notin> set (tokens (scanned code))"
  shows "interpret_c code w = Some w
         \<and> (load e path = Some code \<longrightarrow>
              (\<exists>tr. main e [prog, path] = Some \<lparr>exit_code = 0, stdio = io0, trace = tr\<rparr>))"
proof -
  have s: "spec_interpret (tokens (scanned code)) w' = w'" for w'
    using assms(2) by (rule spec_interpret_no_print)
  have a: "interpret_c code w = Some w"
    using interpret_c_spec [OF assms(1), of w] s by simp
  have b: "\<exists>tr. main e [prog, path] = Some \<lparr>exit_code = 0, stdio = io0, trace = tr\<rparr>"
    if "load e path = Some code"
    using main_load [OF that, of prog] s by auto
  from a b show ?thesis by blast
qed

theorem no_print_no_output_witness:
  "readable [NUL] \<and> ''print'' \<notin> set (tokens (scanned [NUL]))
   \<and> load (one_file ''empty.txt'' []) ''empty.txt'' = Some [NUL]
   \<and> interpret_c [NUL] io0 = Some io0
   \<and> (\<exists>tr. main (one_file ''empty.txt'' []) [''./interpreter'', ''empty.txt'']
              = Some \<lparr>exit_code = 0, stdio = io0, trace = tr\<rparr>)"
proof -
  have r: "readable [NUL]" by (simp add: readable_def)
  have t: "''print'' \<notin> set (tokens (scanned [NUL]))"
    by (simp add: scanned_def eval_chars tokens_def)
  have ld: "load (one_file ''empty.txt'' []) ''empty.txt'' = Some [NUL]"
    using load_one_file [of "[]" "''empty.txt''"] by simp
  from no_print_no_output [OF r t, of io0 "one_file ''empty.txt'' []" "''empty.txt''"
      "''./interpreter''"] r t ld
  show ?thesis by simp
qed

text \<open>
  C5 does not hold of the tokens of the whole buffer. The buffer of 994 spaces followed by
  \<open>printer\<close> has the one token \<open>printer\<close>, but the working copy ends behind \<open>print\<close>, and
  the missing argument is reported on standard error.
\<close>

theorem truncated_token_counterexample:
  "tokens (c_chars (replicate 994 (CHR '' '') @ ''printer'' @ [NUL])) = [''printer'']
   \<and> interpret_c (replicate 994 (CHR '' '') @ ''printer'' @ [NUL]) io0
       = Some \<lparr>out = [], err = ''Error: Missing argument for print'' @ [CHR 0x0A]\<rparr>"
proof -
  let ?I = "replicate 994 (CHR '' '') @ ''printer'' @ [NUL]"
  have a: "tokens (c_chars ?I) = [''printer'']"
    by (simp add: eval_chars tokens_spaces) (simp add: tokens_def is_delim_def)
  have "scanned ?I = replicate 994 (CHR '' '') @ ''print''"
    by (simp add: scanned_def MAX_CODE_SIZE_def eval_chars)
  then have "tokens (scanned ?I) = [''print'']"
    by (simp add: tokens_spaces) (simp add: tokens_def is_delim_def)
  moreover have "readable ?I" by (simp add: readable_def)
  ultimately have "interpret_c ?I io0 = Some (spec_interpret [''print''] io0)"
    using interpret_c_spec [of ?I io0] by simp
  with a show ?thesis
    by (simp add: io0_def fprintf_stderr_def missing_msg_def)
qed

subsection \<open>C6: the usage error\<close>

text \<open>
  C6. For every invocation with \<open>argc\<close> other than 2 (no path, or two or more), main
  writes the usage message to standard error and exits with code 1; no file is opened
  and nothing is scanned, whatever the environment holds.
\<close>

theorem usage_error:
  assumes "length argv \<noteq> 2"
  shows "main e argv =
           Some \<lparr>exit_code = 1,
                 stdio = \<lparr>out = [], err = ''Usage: ./interpreter <filename>'' @ [CHR 0x0A]\<rparr>,
                 trace = []\<rparr>"
  using assms by (simp add: main_def fprintf_stderr_def io0_def usage_msg_def)

theorem usage_error_witness:
  "length [''./interpreter''] \<noteq> 2
   \<and> length [''./interpreter'', ''a.txt'', ''b.txt''] \<noteq> 2
   \<and> main (one_file ''a.txt'' ''print x'') [''./interpreter''] =
        Some \<lparr>exit_code = 1,
              stdio = \<lparr>out = [], err = ''Usage: ./interpreter <filename>'' @ [CHR 0x0A]\<rparr>,
              trace = []\<rparr>
   \<and> main (one_file ''a.txt'' ''print x'') [''./interpreter'', ''a.txt'', ''b.txt''] =
        Some \<lparr>exit_code = 1,
              stdio = \<lparr>out = [], err = ''Usage: ./interpreter <filename>'' @ [CHR 0x0A]\<rparr>,
              trace = []\<rparr>"
proof -
  have a: "length [''./interpreter''] \<noteq> 2"
    and b: "length [''./interpreter'', ''a.txt'', ''b.txt''] \<noteq> 2"
    by simp_all
  from usage_error [OF a, of "one_file ''a.txt'' ''print x''"]
    usage_error [OF b, of "one_file ''a.txt'' ''print x''"] a b
  show ?thesis by simp
qed

subsection \<open>C7: failures of the loader\<close>

text \<open>
  C7. When the file cannot be opened, when the allocation fails, and when \<open>fread\<close>
  delivers fewer bytes than were measured, main writes a message that names the failure
  (\<open>Failed to open the file '<path>'\<close>, \<open>Memory allocation error\<close>,
  \<open>Failed to read the file '<path>'\<close>) to standard error and exits with code 1, and every
  resource acquired before is released first: nothing in the first case, the file in the
  second, the buffer and then the file in the third.
\<close>

theorem load_failures:
  "(fopen_file e path = None \<longrightarrow>
      main e [prog, path] =
        Some \<lparr>exit_code = 1, stdio = \<lparr>out = [],
                       err = ''Failed to open the file '' @ [CHR 0x27] @ path @ [CHR 0x27, CHR 0x0A]\<rparr>,
              trace = [FopenFailed path]\<rparr>
      \<and> released [FopenFailed path])
   \<and> (fopen_file e path = Some f \<and> \<not> malloc_ok e (size_t_of (measured f + 1)) \<longrightarrow>
      main e [prog, path] =
        Some \<lparr>exit_code = 1, stdio = \<lparr>out = [],
                       err = ''Memory allocation error'' @ [CHR 0x0A]\<rparr>,
              trace = [Fopen path, MallocFailed (size_t_of (measured f + 1)), Fclose]\<rparr>
      \<and> released [Fopen path, MallocFailed (size_t_of (measured f + 1)), Fclose])
   \<and> (fopen_file e path = Some f \<and> malloc_ok e (size_t_of (measured f + 1))
        \<and> 0 \<le> measured f \<and> measured f < 2 ^ 63 \<and> length (stream f) < nat (measured f) \<longrightarrow>
      main e [prog, path] =
        Some \<lparr>exit_code = 1, stdio = \<lparr>out = [],
                       err = ''Failed to read the file '' @ [CHR 0x27] @ path @ [CHR 0x27, CHR 0x0A]\<rparr>,
              trace = [Fopen path, Malloc (size_t_of (measured f + 1)), Free, Fclose]\<rparr>
      \<and> released [Fopen path, Malloc (size_t_of (measured f + 1)), Free, Fclose])"
proof -
  have a: "main e [prog, path] =
        Some \<lparr>exit_code = 1, stdio = \<lparr>out = [],
                       err = ''Failed to open the file '' @ [CHR 0x27] @ path @ [CHR 0x27, CHR 0x0A]\<rparr>,
              trace = [FopenFailed path]\<rparr>"
    if "fopen_file e path = None"
    using that by (simp add: main_def fprintf_stderr_def io0_def open_msg_def)
  have b: "main e [prog, path] =
        Some \<lparr>exit_code = 1, stdio = \<lparr>out = [],
                       err = ''Memory allocation error'' @ [CHR 0x0A]\<rparr>,
              trace = [Fopen path, MallocFailed (size_t_of (measured f + 1)), Fclose]\<rparr>"
    if "fopen_file e path = Some f" "\<not> malloc_ok e (size_t_of (measured f + 1))"
    using that by (simp add: main_def fprintf_stderr_def io0_def Let_def alloc_msg_def)
  have c: "main e [prog, path] =
        Some \<lparr>exit_code = 1, stdio = \<lparr>out = [],
                       err = ''Failed to read the file '' @ [CHR 0x27] @ path @ [CHR 0x27, CHR 0x0A]\<rparr>,
              trace = [Fopen path, Malloc (size_t_of (measured f + 1)), Free, Fclose]\<rparr>"
    if f: "fopen_file e path = Some f" and m: "malloc_ok e (size_t_of (measured f + 1))"
      and r: "0 \<le> measured f" "measured f < 2 ^ 63" "length (stream f) < nat (measured f)"
  proof -
    have s1: "size_t_of (measured f) = nat (measured f)"
      using r(1,2) by (simp add: size_t_of_nat)
    have s2: "size_t_of (measured f + 1) = Suc (nat (measured f))"
      using r(1,2) by (simp add: size_t_of_nat Suc_nat_eq_nat_zadd1 add.commute)
    show ?thesis
      using f m r(3) s1 s2
      by (simp add: main_def fprintf_stderr_def io0_def Let_def read_msg_def)
  qed
  have d: "released [FopenFailed path]"
    "released [Fopen path, MallocFailed k, Fclose]"
    "released [Fopen path, Malloc k, Free, Fclose]" for k
    by (simp_all add: released_def)
  from a b c d show ?thesis by blast
qed

theorem load_failures_witness:
  "main no_such_file [''./interpreter'', ''a.txt''] =
      Some \<lparr>exit_code = 1, stdio = \<lparr>out = [],
                       err = ''Failed to open the file '' @ [CHR 0x27] @ ''a.txt'' @ [CHR 0x27, CHR 0x0A]\<rparr>,
            trace = [FopenFailed ''a.txt'']\<rparr>
   \<and> main (no_memory ''a.txt'' ''print x'') [''./interpreter'', ''a.txt''] =
      Some \<lparr>exit_code = 1, stdio = \<lparr>out = [],
                       err = ''Memory allocation error'' @ [CHR 0x0A]\<rparr>,
            trace = [Fopen ''a.txt'', MallocFailed 8, Fclose]\<rparr>
   \<and> main (shrunk_file ''a.txt'' 7 ''print'') [''./interpreter'', ''a.txt''] =
      Some \<lparr>exit_code = 1, stdio = \<lparr>out = [],
                       err = ''Failed to read the file '' @ [CHR 0x27] @ ''a.txt'' @ [CHR 0x27, CHR 0x0A]\<rparr>,
            trace = [Fopen ''a.txt'', Malloc 8, Free, Fclose]\<rparr>"
proof -
  have 1: "fopen_file no_such_file ''a.txt'' = None"
    by (simp add: no_such_file_def)
  let ?f = "\<lparr>measured = 7, stream = ''print x''\<rparr>"
  have 2: "fopen_file (no_memory ''a.txt'' ''print x'') ''a.txt'' = Some ?f
           \<and> \<not> malloc_ok (no_memory ''a.txt'' ''print x'') (size_t_of (measured ?f + 1))"
    by (simp add: no_memory_def one_file_def)
  let ?g = "\<lparr>measured = 7, stream = ''print''\<rparr>"
  have 3: "fopen_file (shrunk_file ''a.txt'' 7 ''print'') ''a.txt'' = Some ?g
           \<and> malloc_ok (shrunk_file ''a.txt'' 7 ''print'') (size_t_of (measured ?g + 1))
           \<and> 0 \<le> measured ?g \<and> measured ?g < 2 ^ 63 \<and> length (stream ?g) < nat (measured ?g)"
    by (simp add: shrunk_file_def)
  have s: "size_t_of 8 = 8" by (simp add: size_t_of_def)
  from load_failures [of no_such_file "''a.txt''" "''./interpreter''" ?f] 1
  have a: "main no_such_file [''./interpreter'', ''a.txt''] =
      Some \<lparr>exit_code = 1, stdio = \<lparr>out = [],
                       err = ''Failed to open the file '' @ [CHR 0x27] @ ''a.txt'' @ [CHR 0x27, CHR 0x0A]\<rparr>,
            trace = [FopenFailed ''a.txt'']\<rparr>"
    by blast
  from load_failures [of "no_memory ''a.txt'' ''print x''" "''a.txt''" "''./interpreter''" ?f] 2 s
  have b: "main (no_memory ''a.txt'' ''print x'') [''./interpreter'', ''a.txt''] =
      Some \<lparr>exit_code = 1, stdio = \<lparr>out = [],
                       err = ''Memory allocation error'' @ [CHR 0x0A]\<rparr>,
            trace = [Fopen ''a.txt'', MallocFailed 8, Fclose]\<rparr>"
    by simp
  from load_failures [of "shrunk_file ''a.txt'' 7 ''print''" "''a.txt''" "''./interpreter''" ?g] 3 s
  have c: "main (shrunk_file ''a.txt'' 7 ''print'') [''./interpreter'', ''a.txt''] =
      Some \<lparr>exit_code = 1, stdio = \<lparr>out = [],
                       err = ''Failed to read the file '' @ [CHR 0x27] @ ''a.txt'' @ [CHR 0x27, CHR 0x0A]\<rparr>,
            trace = [Fopen ''a.txt'', Malloc 8, Free, Fclose]\<rparr>"
    by simp
  from a b c show ?thesis by simp
qed

subsection \<open>C8: the working copy is terminated\<close>

text \<open>
  C8. For every readable input buffer, the working copy has \<open>MAX_CODE_SIZE\<close> bytes, its
  last byte is NUL, and the scan reads nothing behind the first NUL of the copy: on the
  copy cut off right behind that NUL, where any further read would leave the buffer,
  the scan runs to its end with the same result.
\<close>

theorem working_copy_terminated:
  assumes "readable code"
  shows "\<exists>cc. code_copy code = Some cc
           \<and> length cc = MAX_CODE_SIZE
           \<and> peek cc (MAX_CODE_SIZE - 1) = Some NUL
           \<and> (\<exists>w'. scan cc w = Some w'
                  \<and> scan (take (Suc (length (c_chars cc))) cc) w = Some w')"
proof -
  define s where "s = scanned code"
  define n where "n = MAX_CODE_SIZE - length s"
  define cc where "cc = s @ replicate n NUL"
  have ls: "length s < MAX_CODE_SIZE"
    unfolding s_def by (rule length_scanned)
  then obtain k where k: "n = Suc k" by (cases n) (auto simp: n_def)
  have cc: "code_copy code = Some cc"
    using code_copy_eq [OF assms] by (simp add: cc_def n_def s_def)
  have len: "length cc = MAX_CODE_SIZE"
    using ls by (simp add: cc_def n_def)
  have "cc ! (MAX_CODE_SIZE - 1) = NUL"
    using ls by (auto simp: cc_def n_def nth_append)
  then have last: "peek cc (MAX_CODE_SIZE - 1) = Some NUL"
    using len by (simp add: peek_def MAX_CODE_SIZE_def)
  have nn: "NUL \<notin> set s"
    unfolding s_def by (rule scanned_no_NUL)
  have split: "cc = s @ NUL # replicate k NUL"
    using k by (simp add: cc_def)
  then have "c_chars cc = s"
    using nn by (simp add: c_chars_append_NUL)
  then have cut: "take (Suc (length (c_chars cc))) cc = s @ [NUL]"
    using split by simp
  have "cstring cc = Some s"
    using split nn by (simp add: cstring_append)
  then have a: "scan cc w = Some (spec_interpret (tokens s) w)"
    by (rule scan_refines)
  have "cstring (s @ [NUL]) = Some s"
    using nn cstring_append [of s "[]"] by simp
  then have "scan (s @ [NUL]) w = Some (spec_interpret (tokens s) w)"
    by (rule scan_refines)
  with a cut cc len last show ?thesis by simp
qed

theorem working_copy_terminated_witness:
  "readable (replicate 1000 (CHR ''a''))
   \<and> (\<exists>cc. code_copy (replicate 1000 (CHR ''a'')) = Some cc
          \<and> length cc = MAX_CODE_SIZE \<and> peek cc (MAX_CODE_SIZE - 1) = Some NUL
          \<and> (\<exists>w'. scan cc io0 = Some w'
                 \<and> scan (take (Suc (length (c_chars cc))) cc) io0 = Some w'))"
proof -
  have r: "readable (replicate 1000 (CHR ''a''))"
    by (simp add: readable_def MAX_CODE_SIZE_def)
  from working_copy_terminated [OF r, of io0] r show ?thesis
    by simp
qed

subsection \<open>C9: a NUL byte in the file\<close>

text \<open>
  C9. For every file content with a NUL byte among its first 999 bytes, \<open>interpret\<close>
  interprets exactly the tokens before the first NUL, as if the file ended there, also
  when main has loaded and terminated the whole content.
\<close>

theorem embedded_NUL_ends_input:
  assumes "NUL \<in> set (take (MAX_CODE_SIZE - 1) bytes)"
  shows "interpret_c (bytes @ [NUL]) w = Some (spec_interpret (tokens (c_chars bytes)) w)
         \<and> interpret_c (bytes @ [NUL]) w = interpret_c (c_chars bytes @ [NUL]) w
         \<and> (load e path = Some (bytes @ [NUL]) \<longrightarrow>
              (\<exists>r. main e [prog, path] = Some r \<and> exit_code r = 0
                   \<and> stdio r = spec_interpret (tokens (c_chars bytes)) io0))"
proof -
  have "length (c_chars bytes) < MAX_CODE_SIZE - 1"
    using assms by (rule c_chars_short)
  then have s: "scanned (bytes @ [NUL]) = c_chars bytes"
    by (simp add: scanned_def c_chars_terminated)
  have "c_chars (c_chars bytes) = c_chars bytes"
    unfolding c_chars_def by (simp add: takeWhile_idem)
  then have s': "scanned (c_chars bytes @ [NUL]) = scanned (bytes @ [NUL])"
    by (simp add: scanned_terminated) (simp add: scanned_def)
  have a: "interpret_c (bytes @ [NUL]) w = Some (spec_interpret (tokens (c_chars bytes)) w)"
    using interpret_c_spec [OF readable_terminated, of bytes w] s by simp
  have b: "interpret_c (bytes @ [NUL]) w = interpret_c (c_chars bytes @ [NUL]) w"
    using interpret_c_spec [OF readable_terminated, of bytes w]
      interpret_c_spec [OF readable_terminated, of "c_chars bytes" w] s' by simp
  have c: "\<exists>r. main e [prog, path] = Some r \<and> exit_code r = 0
                   \<and> stdio r = spec_interpret (tokens (c_chars bytes)) io0"
    if "load e path = Some (bytes @ [NUL])"
    using main_load [OF that, of prog] s by auto
  from a b c show ?thesis by blast
qed

theorem embedded_NUL_ends_input_witness:
  "NUL \<in> set (take (MAX_CODE_SIZE - 1) (''print a'' @ [NUL] @ ''print b''))
   \<and> load (one_file ''a.txt'' (''print a'' @ [NUL] @ ''print b'')) ''a.txt''
        = Some ((''print a'' @ [NUL] @ ''print b'') @ [NUL])
   \<and> interpret_c ((''print a'' @ [NUL] @ ''print b'') @ [NUL]) io0
        = Some \<lparr>out = ''Printed: a'' @ [CHR 0x0A], err = []\<rparr>
   \<and> (\<exists>r. main (one_file ''a.txt'' (''print a'' @ [NUL] @ ''print b''))
              [''./interpreter'', ''a.txt''] = Some r
          \<and> exit_code r = 0 \<and> stdio r = \<lparr>out = ''Printed: a'' @ [CHR 0x0A], err = []\<rparr>)"
proof -
  let ?b = "''print a'' @ [NUL] @ ''print b''"
  have h: "NUL \<in> set (take (MAX_CODE_SIZE - 1) ?b)"
    by (simp add: MAX_CODE_SIZE_def)
  have ld: "load (one_file ''a.txt'' ?b) ''a.txt'' = Some (?b @ [NUL])"
    using load_one_file [of ?b "''a.txt''"] by simp
  have t: "spec_interpret (tokens (c_chars ?b)) io0 = \<lparr>out = ''Printed: a'' @ [CHR 0x0A], err = []\<rparr>"
    by (simp add: eval_chars tokens_def is_delim_def io0_def printf_printed_def)
  from embedded_NUL_ends_input [OF h, of io0 "one_file ''a.txt'' ?b" "''a.txt''" "''./interpreter''"]
  have "interpret_c (?b @ [NUL]) io0 = Some (spec_interpret (tokens (c_chars ?b)) io0)"
    and "\<exists>r. main (one_file ''a.txt'' ?b) [''./interpreter'', ''a.txt''] = Some r
          \<and> exit_code r = 0 \<and> stdio r = spec_interpret (tokens (c_chars ?b)) io0"
    using ld by blast+
  with h ld show ?thesis
    unfolding t by blast
qed

subsection \<open>C10: only the first 999 characters matter\<close>

text \<open>
  C10. \<open>interpret\<close> is a function of its input, and two readable input buffers that
  agree on their first 999 bytes give the same standard output and standard error.
\<close>

theorem first_999_decide:
  assumes "readable c1" and "readable c2"
    and "take (MAX_CODE_SIZE - 1) c1 = take (MAX_CODE_SIZE - 1) c2"
  shows "interpret_c c1 w = interpret_c c2 w"
proof -
  have "scanned c1 = scanned c2"
    using assms(3) by (simp add: scanned_def c_chars_take)
  then show ?thesis
    using interpret_c_spec [OF assms(1), of w] interpret_c_spec [OF assms(2), of w] by simp
qed

theorem first_999_decide_witness:
  "readable (replicate 999 (CHR ''a'') @ ''b print x'' @ [NUL])
   \<and> readable (replicate 999 (CHR ''a'') @ ''c'' @ [NUL])
   \<and> take (MAX_CODE_SIZE - 1) (replicate 999 (CHR ''a'') @ ''b print x'' @ [NUL])
       = take (MAX_CODE_SIZE - 1) (replicate 999 (CHR ''a'') @ ''c'' @ [NUL])
   \<and> interpret_c (replicate 999 (CHR ''a'') @ ''b print x'' @ [NUL]) io0
       = interpret_c (replicate 999 (CHR ''a'') @ ''c'' @ [NUL]) io0"
proof -
  let ?c1 = "replicate 999 (CHR ''a'') @ ''b print x'' @ [NUL]"
  let ?c2 = "replicate 999 (CHR ''a'') @ ''c'' @ [NUL]"
  have r1: "readable ?c1" and r2: "readable ?c2"
    by (simp_all add: readable_def)
  have t: "take (MAX_CODE_SIZE - 1) ?c1 = take (MAX_CODE_SIZE - 1) ?c2"
    by (simp add: MAX_CODE_SIZE_def)
  from first_999_decide [OF r1 r2 t, of io0] r1 r2 t show ?thesis
    by blast
qed

end
